theory Spec2Isabelle
  imports Main
begin

section \<open>Documents, pages and errors\<close>

text \<open>
  The page manipulation engine of \<^verbatim>\<open>packages/manipulator/src/index.ts\<close> works on
  PDF documents through the document library \<^verbatim>\<open>@pdfme/pdf-lib\<close> and renders templates
  through \<^verbatim>\<open>@pdfme/generator\<close>. Both are collaborators whose code is not part of the
  sources at hand. A document is modelled as the ordered list of its pages; a byte buffer
  and the document loaded from it are identified, so \<^verbatim>\<open>PDFDocument.load\<close> is the
  identity on the page sequence, and \<^verbatim>\<open>save\<close> is the function \<open>save\<close> below. Page
  indices, positions and degrees are JavaScript numbers in the source; the model takes
  them to be integers.
\<close>

datatype page_content = Blank | Content nat

record page =
  content :: page_content
  rotation :: int

type_synonym pdf = "page list"

text \<open>
  One constructor per \<^verbatim>\<open>throw new Error(...)\<close> of the source, carrying the numbers the
  message interpolates. \<open>LibraryError\<close> stands for a range assertion of the document
  library, \<open>RendererError\<close> for a failure of the template renderer.
\<close>

datatype error =
    ItemRequired             \<comment> \<open>At least one item is required for merging\<close>
  | InvalidPageIndex int     \<comment> \<open>Invalid page index. Pages must be between 0 and maxPageIndex\<close>
  | TemplateRequired         \<comment> \<open>At least one template is required\<close>
  | RangeRequired            \<comment> \<open>At least one range is required for splitting\<close>
  | InvalidRange int int int \<comment> \<open>Invalid range: start, end, total pages\<close>
  | PageNumberRequired       \<comment> \<open>At least one page number is required for removal\<close>
  | InvalidPageNumber int    \<comment> \<open>Invalid page number: pages must be between 0 and numPages - 1\<close>
  | InvalidPosition int      \<comment> \<open>Invalid position: must be between 0 and numPages\<close>
  | InvalidRotation          \<comment> \<open>Rotation degrees must be a multiple of 90\<close>
  | NoPagesToRotate          \<comment> \<open>PDF has no pages to rotate\<close>
  | InvalidMove int int int  \<comment> \<open>Invalid page number: from, to, total pages\<close>
  | ActionRequired           \<comment> \<open>At least one action is required\<close>
  | LibraryError
  | RendererError

text \<open>Sequencing of fallible steps: an exception ends the call.\<close>

fun andThen :: "error + 'a \<Rightarrow> ('a \<Rightarrow> error + 'b) \<Rightarrow> error + 'b" where
  "andThen (Inl e) f = Inl e"
| "andThen (Inr x) f = f x"

section \<open>The document library\<close>

text \<open>
  Modelled from the spec: the class \<^verbatim>\<open>PDFDocument\<close> of \<^verbatim>\<open>@pdfme/pdf-lib\<close> is not
  among the sources. The spec's Document is an ordered, 0-indexed, gapless sequence of
  pages in which any index \<open>i\<close> must satisfy \<open>0 \<le> i < pageCount\<close>; copying a page into
  another document leaves the original untouched; parsing a buffer keeps the page
  sequence, and so does serialising a document that has pages. A method given an index
  outside the range it accepts throws.
\<close>

definition create :: pdf where
  \<comment> \<open>Modelled from the spec: \<^verbatim>\<open>PDFDocument.create()\<close>, a document without pages.\<close>
  "create = []"

definition getPageCount :: "pdf \<Rightarrow> int" where
  \<comment> \<open>Modelled from the spec: \<^verbatim>\<open>getPageCount()\<close>.\<close>
  "getPageCount d = int (length d)"

definition getPageIndices :: "pdf \<Rightarrow> int list" where
  \<comment> \<open>Modelled from the spec: \<^verbatim>\<open>getPageIndices()\<close>, the indices \<open>0 .. pageCount - 1\<close>.\<close>
  "getPageIndices d = map int [0..<length d]"

definition copyPages :: "pdf \<Rightarrow> int list \<Rightarrow> error + page list" where
  \<comment> \<open>Modelled from the spec: \<^verbatim>\<open>copyPages(srcDoc, indices)\<close> returns copies of the pages
      of \<open>srcDoc\<close> at the indices, in the order of the indices; the target document's
      own pages do not change.\<close>
  "copyPages srcDoc indices =
     (if list_ex (\<lambda>i. i < 0 \<or> getPageCount srcDoc \<le> i) indices then Inl LibraryError
      else Inr (map (\<lambda>i. srcDoc ! nat i) indices))"

definition addPage :: "pdf \<Rightarrow> page \<Rightarrow> pdf" where
  \<comment> \<open>Modelled from the spec: \<^verbatim>\<open>addPage(page)\<close> appends the page.\<close>
  "addPage d pg = d @ [pg]"

definition insertPage :: "int \<Rightarrow> page \<Rightarrow> pdf \<Rightarrow> error + pdf" where
  \<comment> \<open>Modelled from the spec: \<^verbatim>\<open>insertPage(index, page)\<close>, for an index in
      \<open>[0, pageCount]\<close>.\<close>
  "insertPage index pg d =
     (if index < 0 \<or> getPageCount d < index then Inl LibraryError
      else Inr (take (nat index) d @ [pg] @ drop (nat index) d))"

definition removePage :: "int \<Rightarrow> pdf \<Rightarrow> error + pdf" where
  \<comment> \<open>Modelled from the spec: \<^verbatim>\<open>removePage(index)\<close>, for an index in
      \<open>[0, pageCount - 1]\<close>.\<close>
  "removePage index d =
     (if d = [] then Inl LibraryError
      else if index < 0 \<or> getPageCount d - 1 < index then Inl LibraryError
      else Inr (take (nat index) d @ drop (nat index + 1) d))"

definition getPage :: "int \<Rightarrow> pdf \<Rightarrow> error + page" where
  \<comment> \<open>Modelled from the spec: \<^verbatim>\<open>getPage(index)\<close>, for an index in \<open>[0, pageCount - 1]\<close>.\<close>
  "getPage index d =
     (if index < 0 \<or> getPageCount d - 1 < index then Inl LibraryError
      else Inr (d ! nat index))"

definition setRotation :: "int \<Rightarrow> page \<Rightarrow> page" where
  \<comment> \<open>Modelled from the spec: \<^verbatim>\<open>page.setRotation\<close> replaces the page's rotation.\<close>
  "setRotation angle pg = pg\<lparr>rotation := angle\<rparr>"

definition blankPage :: page where
  \<comment> \<open>Modelled from the spec: the empty page the library adds to a document without
      pages when it serialises it.\<close>
  "blankPage = \<lparr>content = Blank, rotation = 0\<rparr>"

definition save :: "pdf \<Rightarrow> pdf" where
  \<comment> \<open>Modelled from the spec: \<^verbatim>\<open>save()\<close> serialises the document, page sequence
      unchanged; a document without pages is given one blank page first (the
      library's default \<^verbatim>\<open>addDefaultPage\<close>). The result is read as the document that
      \<^verbatim>\<open>PDFDocument.load\<close> gets back from the bytes.\<close>
  "save d = (if d = [] then [blankPage] else d)"

text \<open>\<^verbatim>\<open>pages.forEach((page) => doc.addPage(page))\<close>\<close>

definition addPages :: "pdf \<Rightarrow> page list \<Rightarrow> pdf" where
  "addPages d pages = foldl addPage d pages"

text \<open>\<^verbatim>\<open>Array.from({ length: n }, (_, idx) => idx + s)\<close>\<close>

definition arrayFrom :: "int \<Rightarrow> int \<Rightarrow> int list" where
  "arrayFrom n s = map (\<lambda>idx. int idx + s) [0..<nat n]"

section \<open>mergeAdvanced, mergeWithTemplates and merge\<close>

text \<open>
  A \<^verbatim>\<open>MergeItem\<close> is tagged by its \<^verbatim>\<open>type\<close> field: a PDF with an optional page
  list, or a template with optional inputs. An input record is a list of named values.
  The template type is left open; the renderer \<^verbatim>\<open>generate\<close> is a parameter of
  every function that reaches it.
\<close>

type_synonym input = "(string \<times> string) list"

datatype 't MergeItem =
    PdfItem pdf "int list option"
  | TemplateItem 't "input list option"

datatype Position = Start | End | Num int

type_synonym MergeOptions = "Position option"

type_synonym 't renderer = "'t \<Rightarrow> input list \<Rightarrow> error + pdf"

text \<open>The loop of lines 29-55: every item appends its copied pages to \<^verbatim>\<open>allPages\<close>.\<close>

fun collectPages :: "'t renderer \<Rightarrow> 't MergeItem list \<Rightarrow> page list \<Rightarrow> error + page list" where
  "collectPages generate [] allPages = Inr allPages"
| "collectPages generate (PdfItem pdfData pages # items) allPages =
     (let srcDoc = pdfData;
          pageIndices = (case pages of Some ps \<Rightarrow> ps | None \<Rightarrow> getPageIndices srcDoc);
          maxPageIndex = getPageCount srcDoc - 1
      in if list_ex (\<lambda>idx. idx < 0 \<or> idx > maxPageIndex) pageIndices
         then Inl (InvalidPageIndex maxPageIndex)
         else andThen (copyPages srcDoc pageIndices)
                (\<lambda>copiedPages. collectPages generate items (allPages @ copiedPages)))"
| "collectPages generate (TemplateItem template inputs # items) allPages =
     (let inputs' = (case inputs of Some i \<Rightarrow> i | None \<Rightarrow> [[]])
      in andThen (generate template inputs')
           (\<lambda>templateDoc. andThen (copyPages templateDoc (getPageIndices templateDoc))
              (\<lambda>copiedPages. collectPages generate items (allPages @ copiedPages))))"

text \<open>\<^verbatim>\<open>allPages.forEach((page, index) => mergedPdf.insertPage(insertIndex + index, page))\<close>\<close>

fun insertEach :: "int \<Rightarrow> page list \<Rightarrow> pdf \<Rightarrow> error + pdf" where
  "insertEach i [] d = Inr d"
| "insertEach i (pg # pgs) d = andThen (insertPage i pg d) (insertEach (i + 1) pgs)"

text \<open>Lines 57-72: the collected pages are added to \<^verbatim>\<open>mergedPdf\<close> according to the position.\<close>

definition placePages :: "Position \<Rightarrow> page list \<Rightarrow> pdf \<Rightarrow> error + pdf" where
  "placePages position allPages mergedPdf =
     (case position of
        Start \<Rightarrow> Inr (addPages mergedPdf allPages)
      | End \<Rightarrow> Inr (addPages mergedPdf allPages)
      | Num p \<Rightarrow>
          (let currentPageCount = getPageCount mergedPdf;
               insertIndex = min (max 0 p) currentPageCount
           in insertEach insertIndex allPages mergedPdf))"

definition mergeAdvanced :: "'t renderer \<Rightarrow> 't MergeItem list \<Rightarrow> MergeOptions \<Rightarrow> error + pdf" where
  "mergeAdvanced generate items options =
     (if items = [] then Inl ItemRequired
      else
        let position = (case options of None \<Rightarrow> End | Some p \<Rightarrow> p);
            mergedPdf = create
        in andThen (collectPages generate items [])
             (\<lambda>allPages. andThen (placePages position allPages mergedPdf)
                (\<lambda>mergedPdf'. Inr (save mergedPdf'))))"

record 't TemplateEntry =
  tpl_template :: 't
  tpl_inputs :: "input list option"
  tpl_position :: "Position option"

fun mergeTemplatesLoop :: "'t renderer \<Rightarrow> 't TemplateEntry list \<Rightarrow> pdf \<Rightarrow> error + pdf" where
  "mergeTemplatesLoop generate [] currentPdf = Inr currentPdf"
| "mergeTemplatesLoop generate (t # ts) currentPdf =
     (let inputs = (case tpl_inputs t of None \<Rightarrow> [[]] | Some i \<Rightarrow> i);
          position = (case tpl_position t of None \<Rightarrow> End | Some p \<Rightarrow> p);
          items = [PdfItem currentPdf None, TemplateItem (tpl_template t) (Some inputs)]
      in andThen (mergeAdvanced generate items (Some position))
           (mergeTemplatesLoop generate ts))"

definition mergeWithTemplates :: "'t renderer \<Rightarrow> pdf \<Rightarrow> 't TemplateEntry list \<Rightarrow> error + pdf" where
  "mergeWithTemplates generate basePdf templates =
     (if templates = [] then Inl TemplateRequired
      else mergeTemplatesLoop generate templates basePdf)"

definition merge :: "'t renderer \<Rightarrow> pdf list \<Rightarrow> MergeOptions \<Rightarrow> error + pdf" where
  "merge generate pdfs options =
     mergeAdvanced generate (map (\<lambda>pdf. PdfItem pdf None) pdfs) options"

section \<open>split\<close>

record PageRange =
  range_start :: "int option"
  range_end :: "int option"

text \<open>
  The loop of lines 124-138 with its accumulator \<^verbatim>\<open>result\<close>. The defaults of the
  destructuring pattern are \<open>start = 0\<close> and \<open>end = numPages - 1\<close>.
\<close>

fun splitLoop :: "pdf \<Rightarrow> int \<Rightarrow> PageRange list \<Rightarrow> pdf list \<Rightarrow> error + pdf list" where
  "splitLoop originalPdf numPages [] result = Inr result"
| "splitLoop originalPdf numPages (r # rs) result =
     (let start = (case range_start r of None \<Rightarrow> 0 | Some s \<Rightarrow> s);
          end = (case range_end r of None \<Rightarrow> numPages - 1 | Some e \<Rightarrow> e)
      in if start < 0 \<or> end \<ge> numPages \<or> start > end
         then Inl (InvalidRange start end numPages)
         else andThen (copyPages originalPdf (arrayFrom (end - start + 1) start))
                (\<lambda>pages. splitLoop originalPdf numPages rs
                            (result @ [save (addPages create pages)])))"

definition split :: "pdf \<Rightarrow> PageRange list \<Rightarrow> error + pdf list" where
  "split pdf ranges =
     (if ranges = [] then Inl RangeRequired
      else splitLoop pdf (int (length pdf)) ranges [])"

section \<open>remove\<close>

text \<open>
  The functions \<^verbatim>\<open>remove\<close>, \<^verbatim>\<open>insert\<close> and \<^verbatim>\<open>rotate\<close> of the source are
  \<open>remove_pages\<close>, \<open>insert_pages\<close> and \<open>rotate_pages\<close> here.
\<close>

text \<open>\<^verbatim>\<open>pages.sort((a, b) => b - a).forEach((pageIndex) => pdfDoc.removePage(pageIndex))\<close>\<close>

fun removeEach :: "int list \<Rightarrow> pdf \<Rightarrow> error + pdf" where
  "removeEach [] d = Inr d"
| "removeEach (pageIndex # rest) d = andThen (removePage pageIndex d) (removeEach rest)"

definition sortDescending :: "int list \<Rightarrow> int list" where
  "sortDescending pages = rev (sort pages)"

definition remove_pages :: "pdf \<Rightarrow> int list \<Rightarrow> error + pdf" where
  "remove_pages pdf pages =
     (if pages = [] then Inl PageNumberRequired
      else
        let pdfDoc = pdf; numPages = getPageCount pdfDoc
        in if list_ex (\<lambda>page. page < 0 \<or> page \<ge> numPages) pages
           then Inl (InvalidPageNumber (numPages - 1))
           else andThen (removeEach (sortDescending pages) pdfDoc)
                  (\<lambda>pdfDoc'. Inr (save pdfDoc')))"

section \<open>insert\<close>

record InsertOperation =
  ins_pdf :: pdf
  ins_position :: int

text \<open>
  The loop of lines 169-205, run over the entries sorted by position, with the loop
  variables \<^verbatim>\<open>currentPdf\<close> and \<^verbatim>\<open>offset\<close>; each iteration ends by saving the new
  document (line 202). \<^verbatim>\<open>Array.prototype.sort\<close> is stable, as \<open>sort_key\<close> is. After
  the loop the current document is loaded and saved once more (lines 207-208).
\<close>

fun insertLoop :: "InsertOperation list \<Rightarrow> pdf \<Rightarrow> int \<Rightarrow> error + pdf" where
  "insertLoop [] currentPdf offset = Inr currentPdf"
| "insertLoop (e # es) currentPdf offset =
     (let actualPos = ins_position e + offset;
          basePdfDoc = currentPdf;
          insertDoc = ins_pdf e;
          numPages = getPageCount basePdfDoc
      in if actualPos < 0 \<or> actualPos > numPages then Inl (InvalidPosition numPages)
         else
           andThen (if actualPos > 0
                    then andThen (copyPages basePdfDoc (arrayFrom actualPos 0))
                           (\<lambda>beforePages. Inr (addPages create beforePages))
                    else Inr create)
             (\<lambda>newPdfDoc1.
                andThen (copyPages insertDoc (getPageIndices insertDoc))
                  (\<lambda>insertPages.
                     let newPdfDoc2 = addPages newPdfDoc1 insertPages
                     in andThen (if actualPos < numPages
                                 then andThen (copyPages basePdfDoc
                                                 (arrayFrom (numPages - actualPos) actualPos))
                                        (\<lambda>afterPages. Inr (addPages newPdfDoc2 afterPages))
                                 else Inr newPdfDoc2)
                          (\<lambda>newPdfDoc3.
                             insertLoop es (save newPdfDoc3)
                               (offset + getPageCount insertDoc)))))"

definition insert_pages :: "pdf \<Rightarrow> InsertOperation list \<Rightarrow> error + pdf" where
  "insert_pages basePdf inserts =
     andThen (insertLoop (sort_key ins_position inserts) basePdf 0)
       (\<lambda>currentPdf. let pdfDoc = currentPdf in Inr (save pdfDoc))"

section \<open>rotate\<close>

text \<open>
  The remainder operator \<^verbatim>\<open>%\<close> of JavaScript truncates towards zero: the result has
  the sign of the dividend.
\<close>

definition jsRem :: "int \<Rightarrow> int \<Rightarrow> int" where
  "jsRem a b = sgn a * (\<bar>a\<bar> mod \<bar>b\<bar>)"

text \<open>
  The \<^verbatim>\<open>forEach\<close> of lines 242-250: an index that names no page is skipped by the
  test \<^verbatim>\<open>if (page)\<close>.
\<close>

fun rotateEach :: "int list \<Rightarrow> int \<Rightarrow> pdf \<Rightarrow> pdf" where
  "rotateEach [] angle pages = pages"
| "rotateEach (pageNum # rest) angle pages =
     rotateEach rest angle
       (if 0 \<le> pageNum \<and> pageNum < int (length pages)
        then pages[nat pageNum := setRotation angle (pages ! nat pageNum)]
        else pages)"

definition rotate_pages :: "pdf \<Rightarrow> int \<Rightarrow> int list option \<Rightarrow> error + pdf" where
  "rotate_pages pdf degrees pageNumbers =
     (if jsRem degrees 90 \<noteq> 0 then Inl InvalidRotation
      else
        let pages = pdf
        in if pages = [] then Inl NoPagesToRotate
           else
             let normalizedDegrees = jsRem (jsRem degrees 360 + 360) 360
             in if jsRem normalizedDegrees 90 \<noteq> 0 then Inl InvalidRotation
                else if (case pageNumbers of
                           None \<Rightarrow> False
                         | Some pn \<Rightarrow> list_ex (\<lambda>page. page < 0 \<or> page \<ge> int (length pages)) pn)
                then Inl (InvalidPageNumber (int (length pages) - 1))
                else
                  let pagesToRotate =
                        (case pageNumbers of None \<Rightarrow> map int [0..<length pages] | Some pn \<Rightarrow> pn)
                  in Inr (save (rotateEach pagesToRotate (jsRem normalizedDegrees 360) pages)))"

section \<open>move\<close>

definition move :: "pdf \<Rightarrow> int \<Rightarrow> int \<Rightarrow> error + pdf" where
  "move pdf from to =
     (let pdfDoc = pdf; currentPageCount = getPageCount pdfDoc
      in if from < 0 \<or> from \<ge> currentPageCount \<or> to < 0 \<or> to \<ge> currentPageCount
         then Inl (InvalidMove from to currentPageCount)
         else if from = to then Inr (save pdfDoc)
         else
           andThen (getPage from pdfDoc)
             (\<lambda>page. andThen (removePage from pdfDoc)
                (\<lambda>pdfDoc'.
                   let adjustedTo = (if from < to then to - 1 else to)
                   in andThen (insertPage adjustedTo page pdfDoc')
                        (\<lambda>pdfDoc''. Inr (save pdfDoc'')))))"

section \<open>organize\<close>

text \<open>
  The five action variants of the parameter type. The \<^verbatim>\<open>default\<close> branch of the
  \<^verbatim>\<open>switch\<close> is reached by no value of that type and has no counterpart here. Every
  iteration saves the current document into \<^verbatim>\<open>currentBuffer\<close> (line 298) before it
  dispatches, and the document left by the last action is saved at the end (line 332).
\<close>

datatype OrganizeAction =
    RemoveAction int
  | InsertAction InsertOperation
  | ReplaceAction InsertOperation
  | RotateAction int int
  | MoveAction int int

fun organizeStep :: "OrganizeAction \<Rightarrow> pdf \<Rightarrow> error + pdf" where
  "organizeStep (RemoveAction position) currentBuffer = remove_pages currentBuffer [position]"
| "organizeStep (InsertAction dat) currentBuffer = insert_pages currentBuffer [dat]"
| "organizeStep (ReplaceAction dat) currentBuffer =
     andThen (remove_pages currentBuffer [ins_position dat])
       (\<lambda>withoutTarget. insert_pages withoutTarget [dat])"
| "organizeStep (RotateAction position degrees) currentBuffer =
     rotate_pages currentBuffer degrees (Some [position])"
| "organizeStep (MoveAction from to) currentBuffer = move currentBuffer from to"

fun organizeLoop :: "OrganizeAction list \<Rightarrow> pdf \<Rightarrow> error + pdf" where
  "organizeLoop [] currentPdf = Inr (save currentPdf)"
| "organizeLoop (action # actions) currentPdf =
     (let currentBuffer = save currentPdf
      in andThen (organizeStep action currentBuffer) (organizeLoop actions))"

definition organize :: "pdf \<Rightarrow> OrganizeAction list \<Rightarrow> error + pdf" where
  "organize pdf actions =
     (if actions = [] then Inl ActionRequired
      else organizeLoop actions pdf)"

section \<open>The contract of split, remove and insert\<close>

text \<open>
  The notions in which the contract of \<^verbatim>\<open>split\<close> is stated: the bounds of a range after
  the defaults, the ranges the call rejects, and the pages \<open>[start..end]\<close> of the source.
\<close>

definition rangeStart :: "PageRange \<Rightarrow> int" where
  "rangeStart r = (case range_start r of None \<Rightarrow> 0 | Some s \<Rightarrow> s)"

definition rangeEnd :: "pdf \<Rightarrow> PageRange \<Rightarrow> int" where
  "rangeEnd D r = (case range_end r of None \<Rightarrow> getPageCount D - 1 | Some e \<Rightarrow> e)"

definition invalidRange :: "pdf \<Rightarrow> PageRange \<Rightarrow> bool" where
  "invalidRange D r \<longleftrightarrow>
     rangeStart r > rangeEnd D r \<or> rangeStart r < 0 \<or> rangeEnd D r \<ge> getPageCount D"

definition pagesOfRange :: "pdf \<Rightarrow> PageRange \<Rightarrow> page list" where
  "pagesOfRange D r = map (\<lambda>k. D ! k) [nat (rangeStart r)..<nat (rangeEnd D r) + 1]"

text \<open>The pages \<^verbatim>\<open>remove\<close> is to leave: those whose index is not listed, in order.\<close>

definition keptPages :: "pdf \<Rightarrow> int list \<Rightarrow> page list" where
  "keptPages D pages = map (\<lambda>k. D ! k) (filter (\<lambda>k. int k \<notin> set pages) [0..<length D])"

text \<open>
  The contract of \<^verbatim>\<open>insert\<close> in terms of the original base document, without sorting
  or offsets: \<open>pagesAt inserts k\<close> are the pages of the entries with position \<open>k\<close>, in
  the order the entries are given; slot \<open>k\<close> holds them followed by the original page
  \<open>k\<close>, the last slot holding only the entries positioned at the page count; the
  document \<open>insert_spec\<close> is the sequence of the slots.
\<close>

definition pagesAt :: "InsertOperation list \<Rightarrow> int \<Rightarrow> page list" where
  "pagesAt inserts k = concat (map ins_pdf (filter (\<lambda>e. ins_position e = k) inserts))"

definition slot :: "pdf \<Rightarrow> InsertOperation list \<Rightarrow> nat \<Rightarrow> page list" where
  "slot basePdf inserts k =
     pagesAt inserts (int k) @ (if k < length basePdf then [basePdf ! k] else [])"

definition insert_spec :: "pdf \<Rightarrow> InsertOperation list \<Rightarrow> pdf" where
  "insert_spec basePdf inserts = concat (map (slot basePdf inserts) [0..<length basePdf + 1])"

section \<open>Page selection of rotate\<close>


section \<open>Sample values\<close>

text \<open>An unrotated page with the given content, and a renderer of one page per input record.\<close>

definition pg :: "nat \<Rightarrow> page" where
  "pg n = \<lparr>content = Content n, rotation = 0\<rparr>"

definition renderEach :: "nat renderer" where
  "renderEach template inputs = Inr (map (\<lambda>_. pg template) inputs)"

section \<open>Facts about the document library\<close>

lemma save_nonempty: "d \<noteq> [] \<Longrightarrow> save d = d"
  by (simp add: save_def)

lemma save_no_pages: "save [] = [blankPage]"
  by (simp add: save_def)

lemma addPages_append: "addPages d pages = d @ pages"
  unfolding addPages_def by (induction pages arbitrary: d) (simp_all add: addPage_def)

lemma copyPages_all: "copyPages d (getPageIndices d) = Inr d"
proof -
  have "map (\<lambda>i. d ! nat i) (map int [0..<length d]) = d"
    by (simp add: map_nth comp_def)
  moreover have "\<not> list_ex (\<lambda>i. i < 0 \<or> int (length d) \<le> i) (map int [0..<length d])"
    by (simp add: list_ex_iff)
  ultimately show ?thesis
    by (simp add: copyPages_def getPageIndices_def getPageCount_def)
qed

lemma insertEach_ok:
  "0 \<le> i \<Longrightarrow> i \<le> int (length d) \<Longrightarrow>
   insertEach i pgs d = Inr (take (nat i) d @ pgs @ drop (nat i) d)"
proof (induction pgs arbitrary: i d)
  case Nil
  then show ?case by simp
next
  case (Cons pg pgs)
  let ?d' = "take (nat i) d @ [pg] @ drop (nat i) d"
  have step: "insertPage i pg d = Inr ?d'"
    using Cons.prems by (simp add: insertPage_def getPageCount_def)
  have len: "i + 1 \<le> int (length ?d')"
    using Cons.prems by simp
  have "insertEach (i + 1) pgs ?d' = Inr (take (nat (i + 1)) ?d' @ pgs @ drop (nat (i + 1)) ?d')"
    using Cons.IH [of "i + 1" ?d'] Cons.prems len by simp
  moreover have "nat (i + 1) = Suc (nat i)"
    using Cons.prems by simp
  moreover have "length (take (nat i) d) = nat i"
    using Cons.prems by simp
  ultimately show ?case
    using step by (simp add: take_Suc_conv_app_nth)
qed

section \<open>Advanced merge and simple merge\<close>

lemma placePages_create: "placePages position allPages create = Inr allPages"
proof (cases position)
  case (Num p)
  have "insertEach 0 allPages [] = Inr allPages"
    using insertEach_ok [of 0 "[]" allPages] by simp
  then show ?thesis
    using Num by (simp add: placePages_def create_def getPageCount_def)
qed (simp_all add: placePages_def addPages_append create_def)

lemma mergeAdvanced_collect:
  "mergeAdvanced g items options =
     (if items = [] then Inl ItemRequired
      else andThen (collectPages g items []) (\<lambda>allPages. Inr (save allPages)))"
  by (cases "collectPages g items []")
     (simp_all add: mergeAdvanced_def placePages_create)

lemma all_indices_valid:
  "\<not> list_ex (\<lambda>idx. idx < 0 \<or> idx > getPageCount d - 1) (getPageIndices d)"
  by (auto simp: list_ex_iff getPageIndices_def getPageCount_def)

lemma collectPages_pdfs:
  "collectPages g (map (\<lambda>pdf. PdfItem pdf None) pdfs) acc = Inr (acc @ concat pdfs)"
proof (induction pdfs arbitrary: acc)
  case Nil
  then show ?case by simp
next
  case (Cons d pdfs)
  show ?case
    using all_indices_valid [of d] Cons.IH by (simp add: copyPages_all)
qed

lemma merge_result:
  "merge g pdfs options = (if pdfs = [] then Inl ItemRequired else Inr (save (concat pdfs)))"
  by (simp add: merge_def mergeAdvanced_collect collectPages_pdfs)

text \<open>
  C5 as stated fails for documents without pages: merging two of them gives a document
  of one blank page, not of \<open>0 + 0\<close> pages.
\<close>

theorem merge_no_pages_counterexample:
  "merge renderEach [[], []] None = Inr [blankPage]
   \<and> getPageCount [blankPage] \<noteq> getPageCount [] + getPageCount []"
  by (simp add: merge_result save_no_pages getPageCount_def)

text \<open>
  C5, amended. Merging two documents \<open>A\<close> and \<open>B\<close> succeeds whatever the options are.
  When they have at least one page between them, the result has
  \<open>pageCount A + pageCount B\<close> pages, its first \<open>pageCount A\<close> pages are the pages of
  \<open>A\<close> in order and the rest are the pages of \<open>B\<close> in order; when neither has a page,
  the result is one blank page. Merging any non-empty list of documents yields their
  pages concatenated in argument order, each source keeping its own page order, as the
  library saves them: with one blank page if there is no page at all.
\<close>

theorem merge_concatenates:
  "(\<exists>r. merge generate [A, B] options = Inr r
        \<and> (A \<noteq> [] \<or> B \<noteq> [] \<longrightarrow>
             getPageCount r = getPageCount A + getPageCount B
             \<and> take (length A) r = A \<and> drop (length A) r = B)
        \<and> (A = [] \<and> B = [] \<longrightarrow> r = [blankPage]))
   \<and> (pdfs \<noteq> [] \<longrightarrow> merge generate pdfs options = Inr (save (concat pdfs)))
   \<and> (pdfs \<noteq> [] \<and> concat pdfs \<noteq> [] \<longrightarrow> merge generate pdfs options = Inr (concat pdfs))"
  by (auto simp: merge_result getPageCount_def save_def)

theorem merge_concatenates_witness:
  "merge renderEach [[pg 1, pg 2], [pg 3]] (Some Start) = Inr [pg 1, pg 2, pg 3]
   \<and> merge renderEach [[], []] (Some Start) = Inr [blankPage]"
proof -
  let ?pdfs = "[[pg 1, pg 2], [pg 3]]"
  have some: "?pdfs \<noteq> [] \<and> concat ?pdfs \<noteq> []"
    by simp
  have "merge renderEach ?pdfs (Some Start) = Inr (concat ?pdfs)"
    using merge_concatenates [of renderEach "[pg 1, pg 2]" "[pg 3]" "Some Start" ?pdfs] some
    by blast
  moreover have none: "([] :: pdf) = [] \<and> ([] :: pdf) = []"
    by simp
  have "merge renderEach [[], []] (Some Start) = Inr [blankPage]"
    using merge_concatenates [of renderEach "[]" "[]" "Some Start" "[[], []]"] none
    by blast
  ultimately show ?thesis
    by simp
qed

section \<open>Template-sequence merge\<close>

lemma mergeAdvanced_pdf_template:
  assumes "g template inputs = Inr d"
  shows "mergeAdvanced g [PdfItem cur None, TemplateItem template (Some inputs)] options
         = Inr (save (cur @ d))"
  using assms all_indices_valid [of cur]
  by (simp add: mergeAdvanced_collect copyPages_all)

text \<open>
  C1 (the code does otherwise). Every entry of \<^verbatim>\<open>mergeWithTemplates\<close> is handed to
  \<^verbatim>\<open>mergeAdvanced\<close>, which resolves the position against the page count of the
  document it has just created, which is 0. On a two-page base, a one-page template
  placed at \<^verbatim>\<open>start\<close>, at index 0 or at \<^verbatim>\<open>end\<close> lands after the base pages in all
  three cases.
\<close>

theorem mergeWithTemplates_position_ignored:
  "mergeWithTemplates renderEach [pg 0, pg 1]
     [\<lparr>tpl_template = 7, tpl_inputs = Some [[]], tpl_position = Some Start\<rparr>]
     = Inr [pg 0, pg 1, pg 7]
   \<and> mergeWithTemplates renderEach [pg 0, pg 1]
     [\<lparr>tpl_template = 7, tpl_inputs = Some [[]], tpl_position = Some (Num 0)\<rparr>]
     = Inr [pg 0, pg 1, pg 7]
   \<and> mergeWithTemplates renderEach [pg 0, pg 1]
     [\<lparr>tpl_template = 7, tpl_inputs = Some [[]], tpl_position = Some End\<rparr>]
     = Inr [pg 0, pg 1, pg 7]"
proof -
  have "renderEach 7 [[]] = Inr [pg 7]"
    by (simp add: renderEach_def)
  then show ?thesis
    by (simp add: mergeWithTemplates_def mergeAdvanced_pdf_template save_def)
qed

section \<open>Empty inputs\<close>

text \<open>
  C9 as stated fails for a base document without pages: with an empty list of entries
  the call still loads and saves the base, and what comes back is one blank page.
\<close>

theorem insert_empty_list_counterexample:
  "insert_pages [] [] = Inr [blankPage] \<and> [blankPage] \<noteq> []"
  by (simp add: insert_pages_def save_no_pages)

text \<open>
  C9, amended. \<^verbatim>\<open>insert\<close> with an empty list of entries does not fail: it returns
  the base document as the library saves it, which is the base document itself, pages,
  order and rotations, whenever the base has at least one page. The other operations
  that take a list reject the empty list: \<^verbatim>\<open>merge\<close>, \<^verbatim>\<open>mergeAdvanced\<close>,
  \<^verbatim>\<open>mergeWithTemplates\<close>, \<^verbatim>\<open>split\<close>, \<^verbatim>\<open>remove\<close> and \<^verbatim>\<open>organize\<close>.
\<close>

theorem insert_empty_list:
  "insert_pages basePdf [] = Inr (save basePdf)
   \<and> (basePdf \<noteq> [] \<longrightarrow> insert_pages basePdf [] = Inr basePdf)
   \<and> merge generate [] options = Inl ItemRequired
   \<and> mergeAdvanced generate [] options = Inl ItemRequired
   \<and> mergeWithTemplates generate basePdf [] = Inl TemplateRequired
   \<and> split basePdf [] = Inl RangeRequired
   \<and> remove_pages basePdf [] = Inl PageNumberRequired
   \<and> organize basePdf [] = Inl ActionRequired"
  by (simp add: insert_pages_def merge_def mergeAdvanced_def mergeWithTemplates_def split_def
      remove_pages_def organize_def save_nonempty)

theorem insert_empty_list_witness:
  "[pg 0, pg 1] \<noteq> [] \<and> insert_pages [pg 0, pg 1] [] = Inr [pg 0, pg 1]"
proof -
  have ne: "[pg 0, pg 1] \<noteq> []"
    by simp
  show ?thesis
    using insert_empty_list [of "[pg 0, pg 1]" renderEach None] ne by blast
qed

section \<open>move\<close>

lemma move_result:
  assumes "0 \<le> from" "from < int (length D)" "0 \<le> to" "to < int (length D)"
  shows "move D from to =
     Inr (if from = to then D
          else let rest = take (nat from) D @ drop (nat from + 1) D;
                   adjustedTo = (if from < to then to - 1 else to)
               in take (nat adjustedTo) rest @ [D ! nat from] @ drop (nat adjustedTo) rest)"
proof -
  have ne: "D \<noteq> []" using assms by auto
  have len: "int (length (take (nat from) D @ drop (nat from + 1) D)) = int (length D) - 1"
    using assms by auto
  show ?thesis
    using assms ne len
    by (auto simp: move_def getPageCount_def getPage_def removePage_def insertPage_def Let_def
        save_def)
qed

text \<open>
  C8. For indices \<open>from\<close> and \<open>to\<close> within \<open>[0, pageCount - 1]\<close> the call succeeds. When
  they are equal the document comes back as it is. Otherwise the page at \<open>from\<close> is taken
  out and put back at index \<open>to - 1\<close> if \<open>from < to\<close>, and at index \<open>to\<close> if not; the
  other pages keep their order.
\<close>

theorem move_relocates:
  assumes "0 \<le> from" "from < getPageCount D" "0 \<le> to" "to < getPageCount D"
  shows "move D from from = Inr D
     \<and> move D from to =
         Inr (if from = to then D
              else let rest = take (nat from) D @ drop (nat from + 1) D;
                       adjustedTo = (if from < to then to - 1 else to)
                   in take (nat adjustedTo) rest @ [D ! nat from] @ drop (nat adjustedTo) rest)"
  using assms move_result [of "from" D "from"] move_result [of "from" D to]
  by (simp add: getPageCount_def)

theorem move_relocates_witness:
  "(0::int) \<le> 0 \<and> 0 < getPageCount [pg 0, pg 1, pg 2, pg 3]
   \<and> (0::int) \<le> 2 \<and> 2 < getPageCount [pg 0, pg 1, pg 2, pg 3]
   \<and> move [pg 0, pg 1, pg 2, pg 3] 0 0 = Inr [pg 0, pg 1, pg 2, pg 3]
   \<and> move [pg 0, pg 1, pg 2, pg 3] 0 2 = Inr [pg 1, pg 0, pg 2, pg 3]"
proof -
  have h: "(0::int) < getPageCount [pg 0, pg 1, pg 2, pg 3]"
          "(2::int) < getPageCount [pg 0, pg 1, pg 2, pg 3]"
    by (simp_all add: getPageCount_def)
  show ?thesis
    using h move_relocates [of 0 "[pg 0, pg 1, pg 2, pg 3]" 2] by simp
qed

section \<open>rotate\<close>

lemma jsRem_nonneg: "0 \<le> a \<Longrightarrow> jsRem a b = a mod \<bar>b\<bar>"
  by (cases "a = 0") (simp_all add: jsRem_def)

lemma jsRem_neg: "a < 0 \<Longrightarrow> jsRem a b = - ((- a) mod \<bar>b\<bar>)"
  by (simp add: jsRem_def)

lemma jsRem_normalize: "jsRem (jsRem d 360 + 360) 360 = d mod 360"
proof (cases "0 \<le> d")
  case True
  have "0 \<le> d mod 360 + 360" by simp
  then show ?thesis
    using True by (simp add: jsRem_nonneg)
next
  case False
  then have neg: "d < 0" by simp
  have bound: "(- d) mod 360 < 360" by simp
  have "jsRem (jsRem d 360 + 360) 360 = (- ((- d) mod 360) + 360) mod 360"
    using neg bound by (simp add: jsRem_neg jsRem_nonneg)
  also have "\<dots> = (- ((- d) mod 360)) mod 360" by simp
  also have "\<dots> = (- (- d)) mod 360" by (simp only: mod_minus_eq)
  finally show ?thesis by simp
qed

lemma jsRem_90: "jsRem d 90 = 0 \<longleftrightarrow> d mod 90 = 0"
proof (cases "0 \<le> d")
  case True
  then show ?thesis by (simp add: jsRem_nonneg)
next
  case False
  then have "jsRem d 90 = - ((- d) mod 90)" by (simp add: jsRem_neg)
  then show ?thesis by (simp add: mod_eq_0_iff_dvd)
qed

lemma normalized_90: "d mod 90 = 0 \<Longrightarrow> (d mod 360) mod 90 = (0::int)"
  by (simp add: mod_mod_cancel)

lemma length_rotateEach: "length (rotateEach ns a d) = length d"
  by (induction ns arbitrary: d) simp_all



lemma rotate_pages_eq:
  "rotate_pages D degrees pageNumbers =
    (if degrees mod 90 \<noteq> 0 then Inl InvalidRotation
     else if D = [] then Inl NoPagesToRotate
     else if (case pageNumbers of None \<Rightarrow> False
              | Some pn \<Rightarrow> list_ex (\<lambda>page. page < 0 \<or> page \<ge> int (length D)) pn)
     then Inl (InvalidPageNumber (int (length D) - 1))
     else Inr (rotateEach (case pageNumbers of None \<Rightarrow> map int [0..<length D] | Some pn \<Rightarrow> pn)
                (degrees mod 360) D))"
proof -
  have "save (rotateEach ns a D) = rotateEach ns a D" if "D \<noteq> []" for ns a
  proof (rule save_nonempty)
    show "rotateEach ns a D \<noteq> []"
      using that length_rotateEach [of ns a D] by (metis length_0_conv)
  qed
  then show ?thesis
    by (simp add: rotate_pages_def Let_def jsRem_normalize jsRem_90 jsRem_nonneg normalized_90)
qed



text \<open>
  C10. On a document without pages \<^verbatim>\<open>rotate\<close> fails for every argument and never
  returns the empty document. The degrees are checked first, so the failure is
  \<^verbatim>\<open>PDF has no pages to rotate\<close> exactly when the degrees are a multiple of 90, as
  every value of the parameter's type is, with or without a page list.
\<close>

theorem rotate_empty_fails:
  "(\<exists>e. rotate_pages [] degrees pageNumbers = Inl e)
   \<and> (jsRem degrees 90 = 0 \<longrightarrow> rotate_pages [] degrees pageNumbers = Inl NoPagesToRotate)"
  by (simp add: rotate_pages_def)

theorem rotate_empty_fails_witness:
  "jsRem 90 90 = 0 \<and> rotate_pages [] 90 None = Inl NoPagesToRotate"
  using rotate_empty_fails [of 90 None] by (simp add: jsRem_def)

section \<open>remove\<close>

lemma nths_cong_below:
  "(\<And>k. k < length xs \<Longrightarrow> k \<in> A \<longleftrightarrow> k \<in> B) \<Longrightarrow> nths xs A = nths xs B"
proof (induction xs rule: rev_induct)
  case Nil
  then show ?case by simp
next
  case (snoc x xs)
  have "nths xs A = nths xs B"
    using snoc.IH snoc.prems by simp
  moreover have "nths [x] {j. j + length xs \<in> A} = nths [x] {j. j + length xs \<in> B}"
    using snoc.prems [of "length xs"] by simp
  ultimately show ?case
    by (simp only: nths_append)
qed

lemma removePage_ok:
  "0 \<le> i \<Longrightarrow> i < int (length d) \<Longrightarrow>
   removePage i d = Inr (take (nat i) d @ drop (Suc (nat i)) d)"
  by (auto simp: removePage_def getPageCount_def)

lemma nths_remove_one:
  assumes "i < length d" and "\<forall>j \<in> S. j < int i"
  shows "nths (take i d @ drop (Suc i) d) {k. int k \<notin> S} = nths d {k. int k \<notin> insert (int i) S}"
proof -
  let ?xs = "take i d" and ?ys = "drop (Suc i) d"
  have len: "length ?xs = i" using assms(1) by simp
  have d: "d = ?xs @ [d ! i] @ ?ys"
    using assms(1) by (simp add: id_take_nth_drop [symmetric])
  have left: "nths ?xs {k. int k \<notin> S} = nths ?xs {k. int k \<notin> insert (int i) S}"
    by (rule nths_cong_below) (simp add: len)
  have right1: "nths ?ys {j. j + length ?xs \<in> {k. int k \<notin> S}} = ?ys"
    by (rule nths_all) (use assms(2) len in fastforce)
  have right2: "nths ?ys {j. j + length (?xs @ [d ! i]) \<in> {k. int k \<notin> insert (int i) S}} = ?ys"
    by (rule nths_all) (use assms(2) len in fastforce)
  have mid: "nths [d ! i] {j. j + length ?xs \<in> {k. int k \<notin> insert (int i) S}} = []"
    using assms(1) by simp
  have "nths d {k. int k \<notin> insert (int i) S} = nths ((?xs @ [d ! i]) @ ?ys) {k. int k \<notin> insert (int i) S}"
    using d by simp
  also have "\<dots> = nths ?xs {k. int k \<notin> insert (int i) S} @ ?ys"
    unfolding nths_append [of "?xs @ [d ! i]"] right2
    unfolding nths_append [of ?xs] mid by simp
  finally show ?thesis
    unfolding nths_append [of ?xs ?ys] right1 left by simp
qed

lemma removeEach_descending:
  assumes "sorted_wrt (>) is" and "\<forall>i \<in> set is. 0 \<le> i \<and> i < int (length d)"
  shows "removeEach is d = Inr (nths d {k. int k \<notin> set is})"
  using assms
proof (induction "is" arbitrary: d)
  case Nil
  then show ?case by (simp add: nths_all)
next
  case (Cons i rest)
  let ?d' = "take (nat i) d @ drop (Suc (nat i)) d"
  have i: "0 \<le> i" "i < int (length d)" using Cons.prems(2) by simp_all
  have below: "\<forall>j \<in> set rest. j < i" using Cons.prems(1) by auto
  have len: "int (length ?d') = int (length d) - 1" using i by auto
  have rest: "\<forall>j \<in> set rest. 0 \<le> j \<and> j < int (length ?d')"
    using Cons.prems(2) below i len by fastforce
  have "removeEach rest ?d' = Inr (nths ?d' {k. int k \<notin> set rest})"
    using Cons.IH [of ?d'] Cons.prems(1) rest by simp
  moreover have "nths ?d' {k. int k \<notin> set rest} = nths d {k. int k \<notin> insert (int (nat i)) (set rest)}"
    by (rule nths_remove_one) (use i below in auto)
  ultimately show ?case
    using i by (simp add: removePage_ok)
qed

lemma removeEach_length:
  "removeEach is d = Inr r \<Longrightarrow> int (length r) = int (length d) - int (length is)"
proof (induction "is" arbitrary: d)
  case Nil
  then show ?case by simp
next
  case (Cons i rest)
  then show ?case
    by (cases "removePage i d") (auto simp: removePage_def getPageCount_def split: if_splits)
qed

lemma sortDescending_props:
  "set (sortDescending pages) = set pages" "length (sortDescending pages) = length pages"
  "distinct pages \<Longrightarrow> sorted_wrt (>) (sortDescending pages)"
proof -
  show "set (sortDescending pages) = set pages" "length (sortDescending pages) = length pages"
    by (simp_all add: sortDescending_def)
  assume "distinct pages"
  then have "sorted_wrt (<) (sort pages)"
    by (simp add: strict_sorted_iff)
  then show "sorted_wrt (>) (sortDescending pages)"
    by (simp add: sortDescending_def sorted_wrt_rev)
qed

lemma nths_as_filter: "nths xs A = map (\<lambda>k. xs ! k) (filter (\<lambda>k. k \<in> A) [0..<length xs])"
proof (induction xs rule: rev_induct)
  case Nil
  then show ?case by simp
next
  case (snoc x xs)
  have "map (\<lambda>k. (xs @ [x]) ! k) (filter (\<lambda>k. k \<in> A) [0..<length xs])
        = map (\<lambda>k. xs ! k) (filter (\<lambda>k. k \<in> A) [0..<length xs])"
    by (rule map_cong [OF refl]) (simp add: nth_append)
  then show ?case
    using snoc.IH by (simp add: nths_append)
qed

lemma keptPages_nths: "keptPages D pages = nths D {k. int k \<notin> set pages}"
  by (simp add: keptPages_def nths_as_filter)

text \<open>
  C4 as stated fails when every page is removed: the document left without pages is
  saved with one blank page, so a one-page document minus one index has one page.
\<close>

theorem remove_every_page_counterexample:
  "remove_pages [pg 0] [0] = Inr [blankPage]
   \<and> getPageCount [blankPage] \<noteq> getPageCount [pg 0] - int (length [0 :: int])"
  by code_simp

text \<open>
  C4, amended. For a non-empty list of page indices (the empty list is rejected
  beforehand): an index outside \<open>[0, pageCount - 1]\<close> fails the call before any page is
  removed. When the indices are distinct and all within \<open>[0, pageCount - 1]\<close>, the pages
  are removed one by one in strictly descending index order, which leaves the pages whose
  index is not in the list, in their original order (\<open>keptPages\<close>), and the call returns
  them as the library saves them. When fewer indices than pages are given, the result is
  \<open>keptPages\<close> itself and has \<open>pageCount - length pages\<close> pages; when every page is
  removed, the result is one blank page.
\<close>

theorem remove_descending:
  assumes "pages \<noteq> []"
  shows "((\<exists>p \<in> set pages. p < 0 \<or> getPageCount D \<le> p) \<longrightarrow>
            remove_pages D pages = Inl (InvalidPageNumber (getPageCount D - 1)))
     \<and> (distinct pages \<and> (\<forall>p \<in> set pages. 0 \<le> p \<and> p \<le> getPageCount D - 1) \<longrightarrow>
            sorted_wrt (>) (sortDescending pages)
          \<and> removeEach (sortDescending pages) D = Inr (keptPages D pages)
          \<and> remove_pages D pages = Inr (save (keptPages D pages))
          \<and> getPageCount (keptPages D pages) = getPageCount D - int (length pages)
          \<and> (int (length pages) < getPageCount D \<longrightarrow>
                (\<exists>R. remove_pages D pages = Inr R
                   \<and> getPageCount R = getPageCount D - int (length pages)
                   \<and> R = keptPages D pages))
          \<and> (int (length pages) = getPageCount D \<longrightarrow>
                remove_pages D pages = Inr [blankPage]))"
proof (intro conjI impI)
  assume "\<exists>p \<in> set pages. p < 0 \<or> getPageCount D \<le> p"
  then show "remove_pages D pages = Inl (InvalidPageNumber (getPageCount D - 1))"
    using assms by (auto simp: remove_pages_def list_ex_iff)
next
  assume h: "distinct pages \<and> (\<forall>p \<in> set pages. 0 \<le> p \<and> p \<le> getPageCount D - 1)"
  then have valid: "\<not> list_ex (\<lambda>page. page < 0 \<or> page \<ge> getPageCount D) pages"
    by (auto simp: list_ex_iff)
  show desc: "sorted_wrt (>) (sortDescending pages)"
    using h by (simp add: sortDescending_props)
  have "removeEach (sortDescending pages) D = Inr (nths D {k. int k \<notin> set (sortDescending pages)})"
    by (rule removeEach_descending [OF desc]) (use h in \<open>auto simp: sortDescending_props getPageCount_def\<close>)
  then show each: "removeEach (sortDescending pages) D = Inr (keptPages D pages)"
    by (simp add: sortDescending_props keptPages_nths)
  show res: "remove_pages D pages = Inr (save (keptPages D pages))"
    using assms valid each by (simp add: remove_pages_def)
  show count: "getPageCount (keptPages D pages) = getPageCount D - int (length pages)"
    using removeEach_length [OF each] by (simp add: sortDescending_props getPageCount_def)
  {
    assume "int (length pages) < getPageCount D"
    then have "keptPages D pages \<noteq> []"
      using count by (auto simp: getPageCount_def)
    then have "remove_pages D pages = Inr (keptPages D pages)"
      using res by (simp add: save_nonempty)
    then show "\<exists>R. remove_pages D pages = Inr R
                 \<and> getPageCount R = getPageCount D - int (length pages)
                 \<and> R = keptPages D pages"
      using count by simp
  }
  {
    assume "int (length pages) = getPageCount D"
    then have "keptPages D pages = []"
      using count by (simp add: getPageCount_def)
    then show "remove_pages D pages = Inr [blankPage]"
      using res by (simp add: save_no_pages)
  }
qed

theorem remove_descending_witness:
  "remove_pages [pg 0, pg 1, pg 2] [2, 0] = Inr [pg 1]
   \<and> getPageCount [pg 1] = getPageCount [pg 0, pg 1, pg 2] - int (length [2, 0 :: int])
   \<and> remove_pages [pg 0] [3] = Inl (InvalidPageNumber (getPageCount [pg 0] - 1))
   \<and> remove_pages [pg 0, pg 1] [0, 1] = Inr [blankPage]"
proof -
  have ne: "[2, 0] \<noteq> ([] :: int list)" "[3] \<noteq> ([] :: int list)" "[0, 1] \<noteq> ([] :: int list)"
    by simp_all
  have ok: "distinct [2, 0 :: int]
            \<and> (\<forall>p \<in> set [2, 0]. 0 \<le> p \<and> p \<le> getPageCount [pg 0, pg 1, pg 2] - 1)"
    and fewer: "int (length [2, 0 :: int]) < getPageCount [pg 0, pg 1, pg 2]"
    by (simp_all add: getPageCount_def)
  have bad: "\<exists>p \<in> set [3]. p < 0 \<or> getPageCount [pg 0] \<le> p"
    by (simp add: getPageCount_def)
  have every: "distinct [0, 1 :: int]
            \<and> (\<forall>p \<in> set [0, 1]. 0 \<le> p \<and> p \<le> getPageCount [pg 0, pg 1] - 1)"
    and same: "int (length [0, 1 :: int]) = getPageCount [pg 0, pg 1]"
    by (simp_all add: getPageCount_def)
  have kept: "keptPages [pg 0, pg 1, pg 2] [2, 0] = [pg 1]"
    by code_simp
  have "remove_pages [pg 0, pg 1, pg 2] [2, 0] = Inr (keptPages [pg 0, pg 1, pg 2] [2, 0])
        \<and> getPageCount (keptPages [pg 0, pg 1, pg 2] [2, 0])
            = getPageCount [pg 0, pg 1, pg 2] - int (length [2, 0 :: int])"
    using remove_descending [OF ne(1), of "[pg 0, pg 1, pg 2]"] ok fewer by blast
  moreover have "remove_pages [pg 0] [3] = Inl (InvalidPageNumber (getPageCount [pg 0] - 1))"
    using remove_descending [OF ne(2), of "[pg 0]"] bad by blast
  moreover have "remove_pages [pg 0, pg 1] [0, 1] = Inr [blankPage]"
    using remove_descending [OF ne(3), of "[pg 0, pg 1]"] every same by blast
  ultimately show ?thesis
    unfolding kept by simp
qed

section \<open>split\<close>

lemma copyPages_arrayFrom:
  assumes "0 \<le> s" "0 \<le> n" "s + n \<le> int (length d)"
  shows "copyPages d (arrayFrom n s) = Inr (take (nat n) (drop (nat s) d))"
proof -
  have valid: "\<not> list_ex (\<lambda>i. i < 0 \<or> getPageCount d \<le> i) (arrayFrom n s)"
    using assms by (auto simp: list_ex_iff arrayFrom_def getPageCount_def)
  have "map (\<lambda>i. d ! nat i) (arrayFrom n s) = take (nat n) (drop (nat s) d)"
  proof (rule nth_equalityI)
    show "length (map (\<lambda>i. d ! nat i) (arrayFrom n s)) = length (take (nat n) (drop (nat s) d))"
      using assms by (auto simp: arrayFrom_def)
  next
    fix k assume "k < length (map (\<lambda>i. d ! nat i) (arrayFrom n s))"
    then have k: "k < nat n" by (simp add: arrayFrom_def)
    then have "nat (int k + s) = nat s + k" using assms by auto
    then show "map (\<lambda>i. d ! nat i) (arrayFrom n s) ! k = take (nat n) (drop (nat s) d) ! k"
      using k assms by (simp add: arrayFrom_def)
  qed
  then show ?thesis
    using valid by (simp add: copyPages_def)
qed

lemma take_drop_map_nth:
  "j \<le> length d \<Longrightarrow> i \<le> j \<Longrightarrow> take (j - i) (drop i d) = map (\<lambda>k. d ! k) [i..<j]"
  by (rule nth_equalityI) auto

lemma splitLoop_step:
  "splitLoop D (getPageCount D) (r # rs) result =
     (if invalidRange D r then Inl (InvalidRange (rangeStart r) (rangeEnd D r) (getPageCount D))
      else splitLoop D (getPageCount D) rs (result @ [pagesOfRange D r]))"
proof (cases "invalidRange D r")
  case True
  then show ?thesis
    by (auto simp: invalidRange_def rangeStart_def rangeEnd_def Let_def)
next
  case False
  let ?s = "rangeStart r" and ?e = "rangeEnd D r"
  have b: "0 \<le> ?s" "?s \<le> ?e" "?e < int (length D)"
    using False by (auto simp: invalidRange_def getPageCount_def)
  have "copyPages D (arrayFrom (?e - ?s + 1) ?s) = Inr (take (nat (?e - ?s + 1)) (drop (nat ?s) D))"
    by (rule copyPages_arrayFrom) (use b in auto)
  moreover have "nat (?e - ?s + 1) = (nat ?e + 1) - nat ?s"
    using b by auto
  moreover have "take ((nat ?e + 1) - nat ?s) (drop (nat ?s) D) = pagesOfRange D r"
    unfolding pagesOfRange_def by (rule take_drop_map_nth) (use b in auto)
  ultimately have "copyPages D (arrayFrom (?e - ?s + 1) ?s) = Inr (pagesOfRange D r)"
    by simp
  moreover have "\<not> (?s < 0 \<or> ?e \<ge> getPageCount D \<or> ?s > ?e)"
    using False by (auto simp: invalidRange_def)
  moreover have "pagesOfRange D r \<noteq> []"
    using b by (simp add: pagesOfRange_def)
  then have "save (pagesOfRange D r) = pagesOfRange D r"
    by (rule save_nonempty)
  ultimately show ?thesis
    using False
    by (simp add: Let_def rangeStart_def [symmetric] rangeEnd_def [symmetric]
        addPages_append create_def)
qed

lemma splitLoop_valid:
  "\<forall>r \<in> set rs. \<not> invalidRange D r \<Longrightarrow>
   splitLoop D (getPageCount D) rs result = Inr (result @ map (pagesOfRange D) rs)"
proof (induction rs arbitrary: result)
  case Nil
  then show ?case by simp
next
  case (Cons r rs)
  then show ?case by (simp add: splitLoop_step del: splitLoop.simps)
qed

lemma splitLoop_invalid:
  "\<exists>r \<in> set rs. invalidRange D r \<Longrightarrow>
   \<exists>s e. splitLoop D (getPageCount D) rs result = Inl (InvalidRange s e (getPageCount D))"
proof (induction rs arbitrary: result)
  case Nil
  then show ?case by simp
next
  case (Cons r rs)
  then show ?case by (cases "invalidRange D r") (auto simp: splitLoop_step simp del: splitLoop.simps)
qed

text \<open>
  C6. For a non-empty list of ranges, with \<open>start\<close> defaulting to 0 and \<open>end\<close> to the
  last page index: when no range is invalid (\<open>start > end\<close>, \<open>start < 0\<close> or
  \<open>end \<ge> pageCount\<close>), the call returns one document per range, in the order of the
  ranges, each holding the source pages \<open>start..end\<close> inclusive in original order. When
  any range is invalid, wherever it stands in the list, the call fails with an
  invalid-range error and returns no document at all.
\<close>

theorem split_all_or_nothing:
  assumes "ranges \<noteq> []"
  shows "((\<forall>r \<in> set ranges. \<not> invalidRange D r) \<longrightarrow>
            split D ranges = Inr (map (pagesOfRange D) ranges))
     \<and> ((\<exists>r \<in> set ranges. invalidRange D r) \<longrightarrow>
            (\<exists>s e. split D ranges = Inl (InvalidRange s e (getPageCount D))))"
  using assms splitLoop_valid [of ranges D "[]"] splitLoop_invalid [of ranges D "[]"]
  by (simp add: split_def getPageCount_def [symmetric])

theorem split_all_or_nothing_witness:
  "split [pg 0, pg 1, pg 2, pg 3, pg 4]
     [\<lparr>range_start = Some 0, range_end = Some 1\<rparr>, \<lparr>range_start = Some 2, range_end = None\<rparr>]
   = Inr [[pg 0, pg 1], [pg 2, pg 3, pg 4]]
   \<and> (\<exists>s e. split [pg 0, pg 1, pg 2, pg 3, pg 4]
     [\<lparr>range_start = Some 0, range_end = Some 1\<rparr>, \<lparr>range_start = Some 2, range_end = Some 5\<rparr>]
   = Inl (InvalidRange s e (getPageCount [pg 0, pg 1, pg 2, pg 3, pg 4])))"
proof -
  let ?D = "[pg 0, pg 1, pg 2, pg 3, pg 4]"
  let ?good = "[\<lparr>range_start = Some 0, range_end = Some 1\<rparr>,
                \<lparr>range_start = Some 2, range_end = None\<rparr>]"
  let ?bad = "[\<lparr>range_start = Some 0, range_end = Some 1\<rparr>,
               \<lparr>range_start = Some 2, range_end = Some 5\<rparr>]"
  have ne: "?good \<noteq> []" "?bad \<noteq> []"
    by simp_all
  have valid: "\<forall>r \<in> set ?good. \<not> invalidRange ?D r"
    by (simp add: invalidRange_def rangeStart_def rangeEnd_def getPageCount_def)
  have invalid: "\<exists>r \<in> set ?bad. invalidRange ?D r"
    by (simp add: invalidRange_def rangeStart_def rangeEnd_def getPageCount_def)
  have pages: "map (pagesOfRange ?D) ?good = [[pg 0, pg 1], [pg 2, pg 3, pg 4]]"
    by code_simp
  have "split ?D ?good = Inr (map (pagesOfRange ?D) ?good)"
    using split_all_or_nothing [OF ne(1), of ?D] valid by blast
  moreover have "\<exists>s e. split ?D ?bad = Inl (InvalidRange s e (getPageCount ?D))"
    using split_all_or_nothing [OF ne(2), of ?D] invalid by blast
  ultimately show ?thesis
    using pages by (simp only:)
qed

section \<open>insert\<close>

lemma insertLoop_step:
  "insertLoop (e # es) cur offset =
     (let a = ins_position e + offset
      in if a < 0 \<or> a > int (length cur) then Inl (InvalidPosition (int (length cur)))
         else insertLoop es (save (take (nat a) cur @ ins_pdf e @ drop (nat a) cur))
                (offset + int (length (ins_pdf e))))"
proof -
  let ?a = "ins_position e + offset"
  show ?thesis
  proof (cases "?a < 0 \<or> ?a > int (length cur)")
    case True
    then show ?thesis by (auto simp: Let_def getPageCount_def)
  next
    case False
    then have a: "0 \<le> ?a" "?a \<le> int (length cur)" by auto
    have before: "(if ?a > 0
                   then andThen (copyPages cur (arrayFrom ?a 0))
                          (\<lambda>beforePages. Inr (addPages create beforePages))
                   else Inr create) = Inr (take (nat ?a) cur)"
      using a copyPages_arrayFrom [of 0 ?a cur] by (auto simp: addPages_append create_def)
    have after: "(if ?a < int (length cur)
                  then andThen (copyPages cur (arrayFrom (int (length cur) - ?a) ?a))
                         (\<lambda>afterPages. Inr (addPages d afterPages))
                  else Inr d) = Inr (d @ drop (nat ?a) cur)" for d
      using a copyPages_arrayFrom [of ?a "int (length cur) - ?a" cur]
      by (auto simp: addPages_append)
    show ?thesis
      using False before after
      by (simp add: Let_def getPageCount_def copyPages_all addPages_append)
  qed
qed

lemma insertLoop_step_pages:
  assumes "cur \<noteq> []"
  shows "insertLoop (e # es) cur offset =
     (let a = ins_position e + offset
      in if a < 0 \<or> a > int (length cur) then Inl (InvalidPosition (int (length cur)))
         else insertLoop es (take (nat a) cur @ ins_pdf e @ drop (nat a) cur)
                (offset + int (length (ins_pdf e))))"
proof -
  have "length (take k cur @ d @ drop k cur) = length cur + length d" for k d
    by auto
  then have "take k cur @ d @ drop k cur \<noteq> []" for k d
    using assms by (metis add_is_0 length_0_conv)
  then have "save (take k cur @ d @ drop k cur) = take k cur @ d @ drop k cur" for k d
    by (rule save_nonempty)
  then show ?thesis
    by (simp add: insertLoop_step Let_def del: insertLoop.simps)
qed

lemma insertLoop_too_large:
  assumes "\<exists>e \<in> set es. n < ins_position e"
    and "int (length cur) = n + offset"
    and "cur \<noteq> []"
  shows "\<exists>m. insertLoop es cur offset = Inl (InvalidPosition m)"
  using assms
proof (induction es arbitrary: cur offset)
  case Nil
  then show ?case by simp
next
  case (Cons e es)
  let ?a = "ins_position e + offset"
  let ?new = "take (nat ?a) cur @ ins_pdf e @ drop (nat ?a) cur"
  show ?case
  proof (cases "?a < 0 \<or> ?a > int (length cur)")
    case True
    then show ?thesis
      using Cons.prems(3) by (simp add: insertLoop_step_pages del: insertLoop.simps)
  next
    case False
    then have "\<exists>e \<in> set es. n < ins_position e"
      using Cons.prems by auto
    moreover have len: "int (length ?new) = n + (offset + int (length (ins_pdf e)))"
      using False Cons.prems(2) by auto
    moreover have "?new \<noteq> []"
      using Cons.prems(3) by auto
    ultimately have "\<exists>m. insertLoop es ?new (offset + int (length (ins_pdf e)))
                       = Inl (InvalidPosition m)"
      by (rule Cons.IH)
    then show ?thesis
      using False Cons.prems(3) by (simp add: insertLoop_step_pages Let_def del: insertLoop.simps)
  qed
qed

lemma insertLoop_negative:
  assumes "sorted (map ins_position es)" and "\<exists>e \<in> set es. ins_position e < 0"
  shows "\<exists>m. insertLoop es cur 0 = Inl (InvalidPosition m)"
proof (cases es)
  case Nil
  then show ?thesis using assms(2) by simp
next
  case (Cons e es')
  then have "ins_position e < 0"
    using assms by auto
  then show ?thesis
    using Cons by (simp add: insertLoop_step del: insertLoop.simps)
qed

lemma pagesAt_Nil [simp]: "pagesAt [] k = []"
  by (simp add: pagesAt_def)

lemma pagesAt_Cons:
  "pagesAt (e # es) k = (if ins_position e = k then ins_pdf e else []) @ pagesAt es k"
  by (simp add: pagesAt_def)

lemma pagesAt_none: "\<forall>e \<in> set es. ins_position e \<noteq> k \<Longrightarrow> pagesAt es k = []"
  by (induction es) (simp_all add: pagesAt_Cons)

lemma slots_below:
  assumes "\<forall>e \<in> set es. int hi \<le> ins_position e" and "lo \<le> hi" and "hi \<le> length base"
  shows "concat (map (slot base es) [lo..<hi]) = take (hi - lo) (drop lo base)"
proof -
  have "map (slot base es) [lo..<hi] = map (\<lambda>k. [base ! k]) [lo..<hi]"
  proof (rule map_cong [OF refl])
    fix k assume "k \<in> set [lo..<hi]"
    then have k: "k < hi" by simp
    then have "pagesAt es (int k) = []"
      using assms(1) by (intro pagesAt_none) fastforce
    then show "slot base es k = [base ! k]"
      using k assms(3) by (simp add: slot_def)
  qed
  then have "concat (map (slot base es) [lo..<hi]) = concat (map (\<lambda>k. [base ! k]) [lo..<hi])"
    by (simp only:)
  also have "\<dots> = map (\<lambda>k. base ! k) [lo..<hi]"
    by (induction hi) simp_all
  also have "\<dots> = take (hi - lo) (drop lo base)"
    using assms by (simp add: take_drop_map_nth)
  finally show ?thesis .
qed

lemma slots_from_head:
  assumes "ins_position e = int p" and "p \<le> n"
  shows "concat (map (slot base (e # es)) [p..<n + 1])
         = ins_pdf e @ concat (map (slot base es) [p..<n + 1])"
proof -
  have split: "[p..<n + 1] = p # [p + 1..<n + 1]"
    using assms(2) by (simp add: upt_conv_Cons)
  have tail: "map (slot base (e # es)) [p + 1..<n + 1] = map (slot base es) [p + 1..<n + 1]"
    by (rule map_cong [OF refl]) (use assms(1) in \<open>auto simp: slot_def pagesAt_Cons\<close>)
  have head: "slot base (e # es) p = ins_pdf e @ slot base es p"
    using assms(1) by (simp add: slot_def pagesAt_Cons)
  have "concat (map (slot base (e # es)) (p # [p + 1..<n + 1]))
        = slot base (e # es) p @ concat (map (slot base (e # es)) [p + 1..<n + 1])"
    by (simp only: list.map concat.simps)
  also have "\<dots> = (ins_pdf e @ slot base es p) @ concat (map (slot base es) [p + 1..<n + 1])"
    by (simp only: tail head)
  also have "\<dots> = ins_pdf e @ concat (map (slot base es) (p # [p + 1..<n + 1]))"
    by (simp only: list.map concat.simps append_assoc)
  finally show ?thesis
    unfolding split .
qed

lemma insertLoop_slots:
  assumes "sorted (map ins_position es)"
    and "\<forall>e \<in> set es. int lo \<le> ins_position e \<and> ins_position e \<le> int (length base)"
    and "lo \<le> length base"
    and "int (length pre) = int lo + offset"
    and "pre @ drop lo base \<noteq> []"
  shows "insertLoop es (pre @ drop lo base) offset
         = Inr (pre @ concat (map (slot base es) [lo..<length base + 1]))"
  using assms
proof (induction es arbitrary: pre lo offset)
  case Nil
  have "concat (map (slot base []) [lo..<length base]) = take (length base - lo) (drop lo base)"
    by (rule slots_below) (use Nil.prems in auto)
  moreover have "slot base [] (length base) = []"
    by (simp add: slot_def)
  ultimately show ?case
    using Nil.prems(3) by simp
next
  case (Cons e es)
  let ?n = "length base"
  let ?p = "nat (ins_position e)"
  let ?a = "ins_position e + offset"
  let ?cur = "pre @ drop lo base"
  let ?mid = "take (?p - lo) (drop lo base)"
  let ?pre' = "pre @ ?mid @ ins_pdf e"
  have p: "lo \<le> ?p" "?p \<le> ?n" "ins_position e = int ?p"
    using Cons.prems(2) by auto
  have pos: "int lo \<le> ins_position e" "ins_position e \<le> int ?n" "0 \<le> ins_position e"
    using Cons.prems(2) by auto
  have a: "nat ?a = length pre + (?p - lo)" "0 \<le> ?a" "?a \<le> int (length ?cur)"
  proof -
    show "nat ?a = length pre + (?p - lo)"
      using pos Cons.prems(4) by linarith
    show "0 \<le> ?a"
      using pos Cons.prems(4) by linarith
    show "?a \<le> int (length ?cur)"
      using pos Cons.prems(3,4) by simp
  qed
  have tk: "take (nat ?a) ?cur = pre @ ?mid"
    by (simp add: a(1))
  have "drop (nat ?a) ?cur = drop (?p - lo) (drop lo base)"
    by (simp add: a(1))
  then have dr: "drop (nat ?a) ?cur = drop ?p base"
    using p(1) by simp
  have step: "insertLoop (e # es) ?cur offset
              = insertLoop es (?pre' @ drop ?p base) (offset + int (length (ins_pdf e)))"
    using a(2,3) unfolding insertLoop_step_pages [OF Cons.prems(5)] Let_def tk dr by simp
  have "?pre' @ drop ?p base = pre @ ?mid @ ins_pdf e @ drop (?p - lo) (drop lo base)"
    using p(1) by simp
  then have "length (?pre' @ drop ?p base) = length ?cur + length (ins_pdf e)"
    by (simp del: drop_drop)
  then have grown: "?pre' @ drop ?p base \<noteq> []"
    using Cons.prems(5) by (metis add_is_0 length_0_conv)
  have lenmid: "length ?mid = ?p - lo"
    using p by simp
  have "insertLoop es (?pre' @ drop ?p base) (offset + int (length (ins_pdf e)))
        = Inr (?pre' @ concat (map (slot base es) [?p..<?n + 1]))"
  proof (rule Cons.IH)
    show "sorted (map ins_position es)"
      using Cons.prems(1) by simp
    show "\<forall>x \<in> set es. int ?p \<le> ins_position x \<and> ins_position x \<le> int ?n"
      using Cons.prems(1,2) p(3) by auto
    show "?p \<le> ?n" by (rule p(2))
    show "int (length ?pre') = int ?p + (offset + int (length (ins_pdf e)))"
      using Cons.prems(4) p(1) lenmid by simp
    show "?pre' @ drop ?p base \<noteq> []"
      by (rule grown)
  qed
  moreover have "concat (map (slot base (e # es)) [lo..<?n + 1])
                 = ?mid @ ins_pdf e @ concat (map (slot base es) [?p..<?n + 1])"
  proof -
    have "[lo..<?n + 1] = [lo..<?p] @ [?p..<?n + 1]"
      using p(1,2) upt_add_eq_append [of lo ?p "?n + 1 - ?p"] by simp
    moreover have "concat (map (slot base (e # es)) [lo..<?p]) = ?mid"
      by (rule slots_below) (use Cons.prems(1) p in auto)
    moreover have "concat (map (slot base (e # es)) [?p..<?n + 1])
                   = ins_pdf e @ concat (map (slot base es) [?p..<?n + 1])"
      by (rule slots_from_head) (use p in auto)
    ultimately show ?thesis by simp
  qed
  ultimately show ?case
    using step by simp
qed

lemma slot_sort_key: "slot base (sort_key ins_position inserts) = slot base inserts"
  by (rule ext) (simp add: slot_def pagesAt_def sort_key_stable)

lemma insert_spec_has_pages: "basePdf \<noteq> [] \<Longrightarrow> insert_spec basePdf inserts \<noteq> []"
proof -
  assume base: "basePdf \<noteq> []"
  have "[0..<length basePdf + 1] = 0 # [Suc 0..<length basePdf + 1]"
    by (rule upt_conv_Cons) simp
  then have "insert_spec basePdf inserts
             = slot basePdf inserts 0
               @ concat (map (slot basePdf inserts) [Suc 0..<length basePdf + 1])"
    unfolding insert_spec_def by (simp only: list.map concat.simps)
  moreover have "slot basePdf inserts 0 \<noteq> []"
    using base by (simp add: slot_def)
  ultimately show ?thesis
    by simp
qed

lemma insert_pages_valid:
  assumes "\<forall>e \<in> set inserts. 0 \<le> ins_position e \<and> ins_position e \<le> getPageCount basePdf"
    and "basePdf \<noteq> []"
  shows "insert_pages basePdf inserts = Inr (insert_spec basePdf inserts)"
proof -
  have "insertLoop (sort_key ins_position inserts) ([] @ drop 0 basePdf) 0
        = Inr ([] @ concat (map (slot basePdf (sort_key ins_position inserts))
                              [0..<length basePdf + 1]))"
    by (rule insertLoop_slots) (use assms in \<open>auto simp: getPageCount_def\<close>)
  then have "insertLoop (sort_key ins_position inserts) basePdf 0
             = Inr (insert_spec basePdf inserts)"
    by (simp add: insert_spec_def slot_sort_key)
  then show ?thesis
    using insert_spec_has_pages [OF assms(2)] by (simp add: insert_pages_def save_nonempty)
qed

lemma sorted_same_position:
  "\<forall>e \<in> set es. ins_position e = k \<Longrightarrow> sorted (map ins_position es)"
  by (induction es) auto

lemma insertLoop_after_first:
  assumes "\<forall>e \<in> set es. ins_position e = 0" and "d \<noteq> []"
  shows "insertLoop es d (int (length d)) = Inr (d @ pagesAt es 0)"
proof -
  have "insertLoop es (d @ drop 0 []) (int (length d))
        = Inr (d @ concat (map (slot [] es) [0..<length ([] :: pdf) + 1]))"
    by (rule insertLoop_slots)
       (use assms in \<open>auto intro: sorted_same_position [where k = 0]\<close>)
  then show ?thesis
    by (simp add: slot_def)
qed

lemma insertLoop_after_blank:
  assumes "\<forall>e \<in> set es. ins_position e = 0"
  shows "insertLoop es [blankPage] 0 = Inr (pagesAt es 0 @ [blankPage])"
proof -
  have "pagesAt es 1 = []"
    by (rule pagesAt_none) (use assms in auto)
  moreover have "[0..<length [blankPage] + 1] = [0, 1]"
    by (simp add: upt_conv_Cons)
  moreover have "insertLoop es ([] @ drop 0 [blankPage]) 0
        = Inr ([] @ concat (map (slot [blankPage] es) [0..<length [blankPage] + 1]))"
    by (rule insertLoop_slots)
       (use assms in \<open>auto intro: sorted_same_position [where k = 0]\<close>)
  ultimately show ?thesis
    by (simp add: slot_def)
qed

lemma insert_pages_no_base:
  assumes "\<forall>e \<in> set inserts. ins_position e = 0"
  shows "insert_pages [] inserts =
           Inr (if inserts = [] \<or> ins_pdf (hd inserts) = []
                then insert_spec [] inserts @ [blankPage] else insert_spec [] inserts)"
proof -
  have sorted: "sort_key ins_position inserts = inserts"
    by (rule sort_key_id_if_sorted) (rule sorted_same_position [OF assms])
  have spec: "insert_spec [] xs = pagesAt xs 0" for xs
    by (simp add: insert_spec_def slot_def)
  show ?thesis
  proof (cases inserts)
    case Nil
    then show ?thesis
      by (simp add: insert_pages_def spec save_no_pages)
  next
    case (Cons e es)
    then have es: "\<forall>x \<in> set es. ins_position x = 0" and e: "ins_position e = 0"
      using assms by auto
    have first: "insertLoop (e # es) [] 0
                 = insertLoop es (save (ins_pdf e)) (int (length (ins_pdf e)))"
      using e by (simp add: insertLoop_step del: insertLoop.simps)
    show ?thesis
    proof (cases "ins_pdf e = []")
      case True
      have "insertLoop inserts [] 0 = Inr (pagesAt es 0 @ [blankPage])"
        unfolding Cons first True save_no_pages
        using insertLoop_after_blank [OF es] by simp
      then have "insert_pages [] inserts = Inr (save (pagesAt es 0 @ [blankPage]))"
        by (simp add: insert_pages_def sorted)
      then show ?thesis
        using Cons True e by (simp add: spec pagesAt_Cons save_nonempty)
    next
      case False
      have "insertLoop inserts [] 0 = Inr (ins_pdf e @ pagesAt es 0)"
        unfolding Cons first save_nonempty [OF False]
        using insertLoop_after_first [OF es False] by simp
      then have "insert_pages [] inserts = Inr (save (ins_pdf e @ pagesAt es 0))"
        by (simp add: insert_pages_def sorted)
      then show ?thesis
        using Cons False e by (simp add: spec pagesAt_Cons save_nonempty)
    qed
  qed
qed

lemma insert_pages_result:
  assumes "\<forall>e \<in> set inserts. 0 \<le> ins_position e \<and> ins_position e \<le> getPageCount basePdf"
  shows "insert_pages basePdf inserts =
           Inr (if basePdf = [] \<and> (inserts = [] \<or> ins_pdf (hd inserts) = [])
                then insert_spec basePdf inserts @ [blankPage]
                else insert_spec basePdf inserts)"
proof (cases "basePdf = []")
  case True
  then have "\<forall>e \<in> set inserts. ins_position e = 0"
    using assms by (auto simp: getPageCount_def)
  then show ?thesis
    using True insert_pages_no_base by simp
next
  case False
  then show ?thesis
    using insert_pages_valid [OF assms] by simp
qed

lemma insert_pages_invalid:
  assumes "(\<exists>e \<in> set inserts. ins_position e < 0)
           \<or> basePdf \<noteq> [] \<and> (\<exists>e \<in> set inserts. getPageCount basePdf < ins_position e)"
  shows "\<exists>m. insert_pages basePdf inserts = Inl (InvalidPosition m)"
proof (cases "\<exists>e \<in> set inserts. ins_position e < 0")
  case True
  have "\<exists>m. insertLoop (sort_key ins_position inserts) basePdf 0 = Inl (InvalidPosition m)"
    by (rule insertLoop_negative) (use True in auto)
  then show ?thesis
    by (auto simp: insert_pages_def)
next
  case False
  then have large: "\<exists>e \<in> set (sort_key ins_position inserts). getPageCount basePdf < ins_position e"
    and base: "basePdf \<noteq> []"
    using assms by auto
  have "\<exists>m. insertLoop (sort_key ins_position inserts) basePdf 0 = Inl (InvalidPosition m)"
    by (rule insertLoop_too_large [OF large]) (use base in \<open>auto simp: getPageCount_def\<close>)
  then show ?thesis
    by (auto simp: insert_pages_def)
qed

lemma pagesAt_append: "pagesAt (xs @ ys) k = pagesAt xs k @ pagesAt ys k"
  by (simp add: pagesAt_def)

lemma insert_spec_entry:
  assumes "i < length inserts" and "0 \<le> ins_position (inserts ! i)"
    and "ins_position (inserts ! i) \<le> int (length basePdf)"
  shows "insert_spec basePdf inserts =
           concat (map (slot basePdf inserts) [0..<nat (ins_position (inserts ! i))])
           @ pagesAt (take i inserts) (ins_position (inserts ! i))
           @ ins_pdf (inserts ! i)
           @ pagesAt (drop (Suc i) inserts) (ins_position (inserts ! i))
           @ (if nat (ins_position (inserts ! i)) < length basePdf
              then [basePdf ! nat (ins_position (inserts ! i))] else [])
           @ concat (map (slot basePdf inserts)
                       [Suc (nat (ins_position (inserts ! i)))..<length basePdf + 1])"
proof -
  let ?e = "inserts ! i"
  let ?p = "nat (ins_position ?e)"
  let ?n = "length basePdf"
  have p: "?p \<le> ?n" "int ?p = ins_position ?e"
    using assms(2,3) by auto
  have "[0..<?n + 1] = [0..<?p] @ [?p..<?n + 1]"
    using p(1) upt_add_eq_append [of 0 ?p "?n + 1 - ?p"] by simp
  moreover have "[?p..<?n + 1] = ?p # [Suc ?p..<?n + 1]"
    using p(1) by (simp add: upt_conv_Cons)
  ultimately have range: "[0..<?n + 1] = [0..<?p] @ ?p # [Suc ?p..<?n + 1]"
    by simp
  have "inserts = take i inserts @ ?e # drop (Suc i) inserts"
    using assms(1) by (rule id_take_nth_drop)
  then have "pagesAt inserts (ins_position ?e)
             = pagesAt (take i inserts @ ?e # drop (Suc i) inserts) (ins_position ?e)"
    by simp
  also have "\<dots> = pagesAt (take i inserts) (ins_position ?e) @ ins_pdf ?e
                    @ pagesAt (drop (Suc i) inserts) (ins_position ?e)"
    by (simp add: pagesAt_append pagesAt_Cons)
  finally have at: "pagesAt inserts (ins_position ?e)
             = pagesAt (take i inserts) (ins_position ?e) @ ins_pdf ?e
               @ pagesAt (drop (Suc i) inserts) (ins_position ?e)" .
  have "slot basePdf inserts ?p
        = pagesAt (take i inserts) (ins_position ?e) @ ins_pdf ?e
          @ pagesAt (drop (Suc i) inserts) (ins_position ?e)
          @ (if ?p < ?n then [basePdf ! ?p] else [])"
    unfolding slot_def p(2) at by simp
  then show ?thesis
    unfolding insert_spec_def range by simp
qed

lemma later_entries_elsewhere:
  assumes "\<forall>j. i < j \<and> j < length inserts \<longrightarrow> ins_position (inserts ! j) \<noteq> p"
  shows "pagesAt (drop (Suc i) inserts) p = []"
proof (rule pagesAt_none, rule ballI)
  fix e assume "e \<in> set (drop (Suc i) inserts)"
  then obtain k where k: "k < length (drop (Suc i) inserts)" "e = drop (Suc i) inserts ! k"
    by (auto simp: in_set_conv_nth)
  then have "e = inserts ! (Suc i + k)" "Suc i + k < length inserts"
    by auto
  then show "ins_position e \<noteq> p"
    using assms by auto
qed

text \<open>
  C3 as stated fails when two entries share a position. Both entries of the first call
  below ask for position 1 of a two-page base. The page of the first entry lands at
  index 1 and is followed by the page of the second entry, not by the page that was at
  original index 1. It fails as well on a base without pages: in the second call the
  first entry has no pages, the document saved after it carries one blank page, and the
  page of the second entry, asked for at the page count 0, is not at the end.
\<close>

theorem insert_shared_position_counterexample:
  "insert_pages [pg 0, pg 1]
     [\<lparr>ins_pdf = [pg 10], ins_position = 1\<rparr>, \<lparr>ins_pdf = [pg 11], ins_position = 1\<rparr>]
     = Inr [pg 0, pg 10, pg 11, pg 1]
   \<and> [pg 0, pg 10, pg 11, pg 1] ! 1 = pg 10
   \<and> [pg 0, pg 10, pg 11, pg 1] ! 2 = pg 11
   \<and> pg 11 \<noteq> [pg 0, pg 1] ! 1
   \<and> insert_pages []
     [\<lparr>ins_pdf = [], ins_position = 0\<rparr>, \<lparr>ins_pdf = [pg 9], ins_position = 0\<rparr>]
     = Inr [pg 9, blankPage]"
  by code_simp

text \<open>
  C3, amended. When every position lies in \<open>[0, pageCount]\<close> of the original base, the
  call succeeds. On a base with at least one page it returns \<open>insert_spec\<close>: before each
  original page \<open>p\<close> (and after the last page for \<open>p = pageCount\<close>) stand the pages of
  the entries with position \<open>p\<close>, however many pages the other entries insert. On a base
  without pages it returns the pages of the entries in the order given, followed by one
  blank page when the list is empty or its first entry has no pages. For the entry at
  index \<open>i\<close> of the list, with position \<open>p\<close>, \<open>insert_spec\<close> is: the slots of the
  original indices below \<open>p\<close>, the pages of the entries listed before it with the same
  position, its own pages, the pages of the entries listed after it with the same
  position, the page that was at original index \<open>p\<close> (nothing if \<open>p = pageCount\<close>), and
  the remaining slots. When no entry listed after it has the same position, no pages
  stand between its own pages and that page.
\<close>

theorem insert_places_entries:
  assumes "\<forall>e \<in> set inserts. 0 \<le> ins_position e \<and> ins_position e \<le> getPageCount basePdf"
  shows "insert_pages basePdf inserts =
           Inr (if basePdf = [] \<and> (inserts = [] \<or> ins_pdf (hd inserts) = [])
                then insert_spec basePdf inserts @ [blankPage]
                else insert_spec basePdf inserts)
     \<and> (basePdf \<noteq> [] \<longrightarrow> insert_pages basePdf inserts = Inr (insert_spec basePdf inserts))
     \<and> (\<forall>i < length inserts.
           insert_spec basePdf inserts =
             concat (map (slot basePdf inserts) [0..<nat (ins_position (inserts ! i))])
             @ pagesAt (take i inserts) (ins_position (inserts ! i))
             @ ins_pdf (inserts ! i)
             @ pagesAt (drop (Suc i) inserts) (ins_position (inserts ! i))
             @ (if nat (ins_position (inserts ! i)) < length basePdf
                then [basePdf ! nat (ins_position (inserts ! i))] else [])
             @ concat (map (slot basePdf inserts)
                         [Suc (nat (ins_position (inserts ! i)))..<length basePdf + 1]))
     \<and> (\<forall>i < length inserts.
           (\<forall>j. i < j \<and> j < length inserts \<longrightarrow>
                  ins_position (inserts ! j) \<noteq> ins_position (inserts ! i)) \<longrightarrow>
           pagesAt (drop (Suc i) inserts) (ins_position (inserts ! i)) = [])"
proof (intro conjI allI impI)
  show "insert_pages basePdf inserts =
           Inr (if basePdf = [] \<and> (inserts = [] \<or> ins_pdf (hd inserts) = [])
                then insert_spec basePdf inserts @ [blankPage]
                else insert_spec basePdf inserts)"
    using assms by (rule insert_pages_result)
next
  assume "basePdf \<noteq> []"
  with assms show "insert_pages basePdf inserts = Inr (insert_spec basePdf inserts)"
    by (rule insert_pages_valid)
next
  fix i
  assume "\<forall>j. i < j \<and> j < length inserts \<longrightarrow>
            ins_position (inserts ! j) \<noteq> ins_position (inserts ! i)"
  then show "pagesAt (drop (Suc i) inserts) (ins_position (inserts ! i)) = []"
    by (rule later_entries_elsewhere)
next
  fix i assume i: "i < length inserts"
  then have "inserts ! i \<in> set inserts" by simp
  then have "0 \<le> ins_position (inserts ! i)" "ins_position (inserts ! i) \<le> int (length basePdf)"
    using assms by (auto simp: getPageCount_def)
  with i show "insert_spec basePdf inserts =
             concat (map (slot basePdf inserts) [0..<nat (ins_position (inserts ! i))])
             @ pagesAt (take i inserts) (ins_position (inserts ! i))
             @ ins_pdf (inserts ! i)
             @ pagesAt (drop (Suc i) inserts) (ins_position (inserts ! i))
             @ (if nat (ins_position (inserts ! i)) < length basePdf
                then [basePdf ! nat (ins_position (inserts ! i))] else [])
             @ concat (map (slot basePdf inserts)
                         [Suc (nat (ins_position (inserts ! i)))..<length basePdf + 1])"
    by (rule insert_spec_entry)
qed

theorem insert_places_entries_witness:
  "insert_pages [pg 0, pg 1]
     [\<lparr>ins_pdf = [pg 10], ins_position = 1\<rparr>, \<lparr>ins_pdf = [pg 11], ins_position = 1\<rparr>,
      \<lparr>ins_pdf = [pg 12, pg 13], ins_position = 0\<rparr>]
   = Inr [pg 12, pg 13, pg 0, pg 10, pg 11, pg 1]
   \<and> insert_pages [] [\<lparr>ins_pdf = [], ins_position = 0\<rparr>, \<lparr>ins_pdf = [pg 9], ins_position = 0\<rparr>]
   = Inr [pg 9, blankPage]"
proof -
  let ?ins = "[\<lparr>ins_pdf = [pg 10], ins_position = 1\<rparr>, \<lparr>ins_pdf = [pg 11], ins_position = 1\<rparr>,
      \<lparr>ins_pdf = [pg 12, pg 13], ins_position = 0\<rparr>]"
  let ?none = "[\<lparr>ins_pdf = [], ins_position = 0\<rparr>, \<lparr>ins_pdf = [pg 9], ins_position = 0\<rparr>]"
  have valid: "\<forall>e \<in> set ?ins. 0 \<le> ins_position e \<and> ins_position e \<le> getPageCount [pg 0, pg 1]"
    by (simp add: getPageCount_def)
  have base: "[pg 0, pg 1] \<noteq> []"
    by simp
  have spec: "insert_spec [pg 0, pg 1] ?ins = [pg 12, pg 13, pg 0, pg 10, pg 11, pg 1]"
    by code_simp
  have "insert_pages [pg 0, pg 1] ?ins = Inr (insert_spec [pg 0, pg 1] ?ins)"
    using insert_places_entries [OF valid] base by blast
  moreover have valid0: "\<forall>e \<in> set ?none. 0 \<le> ins_position e \<and> ins_position e \<le> getPageCount []"
    by (simp add: getPageCount_def)
  have "(if ([] :: pdf) = [] \<and> (?none = [] \<or> ins_pdf (hd ?none) = [])
         then insert_spec [] ?none @ [blankPage] else insert_spec [] ?none) = [pg 9, blankPage]"
    by code_simp
  then have "insert_pages [] ?none = Inr [pg 9, blankPage]"
    using insert_places_entries [OF valid0] by simp
  ultimately show ?thesis
    unfolding spec by simp
qed

section \<open>Positions: clamped, rejected\<close>

lemma placePages_clamp:
  "placePages (Num p) allPages mergedPdf =
     Inr (take (nat (min (max 0 p) (getPageCount mergedPdf))) mergedPdf @ allPages
          @ drop (nat (min (max 0 p) (getPageCount mergedPdf))) mergedPdf)"
  unfolding placePages_def Let_def Position.case getPageCount_def
  by (rule insertEach_ok) simp_all

text \<open>
  C2 as stated fails for \<^verbatim>\<open>insert\<close>: a position beyond the page count is not clamped,
  the call fails with an invalid-position error.
\<close>

theorem insert_position_rejected_counterexample:
  "insert_pages [pg 0] [\<lparr>ins_pdf = [pg 9], ins_position = 5\<rparr>] = Inl (InvalidPosition 1)"
  by code_simp

text \<open>
  C2, amended. \<^verbatim>\<open>mergeAdvanced\<close> clamps an integer position into \<open>[0, pageCount]\<close> of
  the document the pages are added to, and the position never makes the call fail: any
  integer gives what \<^verbatim>\<open>end\<close> gives. \<^verbatim>\<open>insert\<close> does not clamp: the call fails with
  an invalid-position error when some entry's position is below 0, or when the base has
  at least one page and some entry's position is above its page count; it succeeds when
  all positions lie in \<open>[0, pageCount]\<close>. The page references of \<^verbatim>\<open>remove\<close>,
  \<^verbatim>\<open>rotate\<close> and \<^verbatim>\<open>move\<close> are rejected with an invalid-page-number error when out
  of \<open>[0, pageCount - 1]\<close>.
\<close>

theorem positions_clamped_or_rejected:
  "placePages (Num p) allPages mergedPdf =
     Inr (take (nat (min (max 0 p) (getPageCount mergedPdf))) mergedPdf @ allPages
          @ drop (nat (min (max 0 p) (getPageCount mergedPdf))) mergedPdf)
   \<and> mergeAdvanced generate items (Some (Num p)) = mergeAdvanced generate items (Some End)
   \<and> ((\<exists>e \<in> set inserts. ins_position e < 0)
        \<or> basePdf \<noteq> [] \<and> (\<exists>e \<in> set inserts. getPageCount basePdf < ins_position e) \<longrightarrow>
        (\<exists>m. insert_pages basePdf inserts = Inl (InvalidPosition m)))
   \<and> ((\<forall>e \<in> set inserts. 0 \<le> ins_position e \<and> ins_position e \<le> getPageCount basePdf) \<longrightarrow>
        (\<exists>R. insert_pages basePdf inserts = Inr R))
   \<and> (pages \<noteq> [] \<and> (\<exists>q \<in> set pages. q < 0 \<or> getPageCount D \<le> q) \<longrightarrow>
        remove_pages D pages = Inl (InvalidPageNumber (getPageCount D - 1)))
   \<and> (degrees mod 90 = 0 \<and> D \<noteq> [] \<and> (\<exists>q \<in> set pageNumbers. q < 0 \<or> getPageCount D \<le> q) \<longrightarrow>
        rotate_pages D degrees (Some pageNumbers) = Inl (InvalidPageNumber (getPageCount D - 1)))
   \<and> (i < 0 \<or> getPageCount D \<le> i \<or> j < 0 \<or> getPageCount D \<le> j \<longrightarrow>
        move D i j = Inl (InvalidMove i j (getPageCount D)))"
proof (intro conjI impI)
  show "placePages (Num p) allPages mergedPdf =
     Inr (take (nat (min (max 0 p) (getPageCount mergedPdf))) mergedPdf @ allPages
          @ drop (nat (min (max 0 p) (getPageCount mergedPdf))) mergedPdf)"
    by (rule placePages_clamp)
  show "mergeAdvanced generate items (Some (Num p)) = mergeAdvanced generate items (Some End)"
    by (simp add: mergeAdvanced_collect)
next
  assume "(\<exists>e \<in> set inserts. ins_position e < 0)
        \<or> basePdf \<noteq> [] \<and> (\<exists>e \<in> set inserts. getPageCount basePdf < ins_position e)"
  then show "\<exists>m. insert_pages basePdf inserts = Inl (InvalidPosition m)"
    by (rule insert_pages_invalid)
next
  assume "\<forall>e \<in> set inserts. 0 \<le> ins_position e \<and> ins_position e \<le> getPageCount basePdf"
  then show "\<exists>R. insert_pages basePdf inserts = Inr R"
    by (simp add: insert_pages_result)
next
  assume "pages \<noteq> [] \<and> (\<exists>q \<in> set pages. q < 0 \<or> getPageCount D \<le> q)"
  then show "remove_pages D pages = Inl (InvalidPageNumber (getPageCount D - 1))"
    by (auto simp: remove_pages_def list_ex_iff)
next
  assume "degrees mod 90 = 0 \<and> D \<noteq> [] \<and> (\<exists>q \<in> set pageNumbers. q < 0 \<or> getPageCount D \<le> q)"
  then show "rotate_pages D degrees (Some pageNumbers) = Inl (InvalidPageNumber (getPageCount D - 1))"
    by (auto simp: rotate_pages_eq list_ex_iff getPageCount_def)
next
  assume "i < 0 \<or> getPageCount D \<le> i \<or> j < 0 \<or> getPageCount D \<le> j"
  then show "move D i j = Inl (InvalidMove i j (getPageCount D))"
    by (auto simp: move_def)
qed

theorem positions_clamped_or_rejected_witness:
  "mergeAdvanced renderEach [PdfItem [pg 0] None] (Some (Num 9))
     = mergeAdvanced renderEach [PdfItem [pg 0] None] (Some End)
   \<and> (\<exists>m. insert_pages [pg 0] [\<lparr>ins_pdf = [pg 9], ins_position = 5\<rparr>] = Inl (InvalidPosition m))
   \<and> (\<exists>R. insert_pages [pg 0] [\<lparr>ins_pdf = [pg 9], ins_position = 1\<rparr>] = Inr R)
   \<and> remove_pages [pg 0] [3] = Inl (InvalidPageNumber (getPageCount [pg 0] - 1))
   \<and> rotate_pages [pg 0] 90 (Some [3]) = Inl (InvalidPageNumber (getPageCount [pg 0] - 1))
   \<and> move [pg 0] 0 4 = Inl (InvalidMove 0 4 (getPageCount [pg 0]))"
proof -
  let ?far = "[\<lparr>ins_pdf = [pg 9], ins_position = 5\<rparr>]"
  let ?near = "[\<lparr>ins_pdf = [pg 9], ins_position = 1\<rparr>]"
  have far: "(\<exists>e \<in> set ?far. ins_position e < 0)
             \<or> [pg 0] \<noteq> [] \<and> (\<exists>e \<in> set ?far. getPageCount [pg 0] < ins_position e)"
    by (simp add: getPageCount_def)
  have near: "\<forall>e \<in> set ?near. 0 \<le> ins_position e \<and> ins_position e \<le> getPageCount [pg 0]"
    by (simp add: getPageCount_def)
  have rem: "[3] \<noteq> ([] :: int list) \<and> (\<exists>q \<in> set [3]. q < 0 \<or> getPageCount [pg 0] \<le> q)"
    by (simp add: getPageCount_def)
  have rot: "(90 :: int) mod 90 = 0 \<and> [pg 0] \<noteq> []
             \<and> (\<exists>q \<in> set [3]. q < 0 \<or> getPageCount [pg 0] \<le> q)"
    by (simp add: getPageCount_def)
  have mov: "(0 :: int) < 0 \<or> getPageCount [pg 0] \<le> 0 \<or> (4 :: int) < 0 \<or> getPageCount [pg 0] \<le> 4"
    by (simp add: getPageCount_def)
  note rejected = positions_clamped_or_rejected
      [where p = 9 and allPages = "[pg 5]" and mergedPdf = "[pg 0, pg 1]"
         and generate = renderEach and items = "[PdfItem [pg 0] None]"
         and inserts = ?far and basePdf = "[pg 0]"
         and pages = "[3]" and D = "[pg 0]" and degrees = 90 and pageNumbers = "[3]"
         and i = 0 and j = 4]
  note accepted = positions_clamped_or_rejected
      [where p = 9 and allPages = "[pg 5]" and mergedPdf = "[pg 0, pg 1]"
         and generate = renderEach and items = "[PdfItem [pg 0] None]"
         and inserts = ?near and basePdf = "[pg 0]"
         and pages = "[3]" and D = "[pg 0]" and degrees = 90 and pageNumbers = "[3]"
         and i = 0 and j = 4]
  have "\<exists>R. insert_pages [pg 0] ?near = Inr R"
    using accepted near by blast
  then show ?thesis
    using rejected far rem rot mov by blast
qed

end
